theory Spec2Isabelle
  imports Complex_Main "HOL-Library.Word" "HOL-Library.Signed_Division"
begin

section \<open>Data model of sljtest.c\<close>

text \<open>
  Ticks, timestamps and deltas are \<^verbatim>\<open>uint64_t\<close>: 64-bit words, whose arithmetic wraps and
  whose order is the unsigned one. The \<^verbatim>\<open>int\<close> fields of \<^verbatim>\<open>args_t\<close> are integers of the
  32-bit range (\<open>c_int\<close>); the code only halves, compares and converts them, and the
  conversion to an unsigned 64-bit value is \<open>word_of_int\<close>. The \<^verbatim>\<open>int\<close> bin counter is the
  one \<^verbatim>\<open>int\<close> that is incremented without bound, so its increment is written with the
  two's-complement wrap-around of the compiled program (\<open>int_wrap\<close>).

  Four names of the source cannot be kept: \<^verbatim>\<open>args.min\<close> is \<open>min_ticks\<close>, \<^verbatim>\<open>args.outbuf\<close>
  is \<open>outbuf_size\<close> (the buffer itself keeps the name \<open>outbuf\<close>), the field \<^verbatim>\<open>when\<close> is
  \<open>when_tsc\<close>, and the locals \<^verbatim>\<open>min\<close> and \<^verbatim>\<open>max\<close> of \<^verbatim>\<open>main\<close> are \<open>min_delta\<close> and
  \<open>max_delta\<close>.
\<close>

type_synonym u64 = "64 word"

definition c_int :: "int \<Rightarrow> bool" where
  "c_int x \<longleftrightarrow> - (2 ^ 31) \<le> x \<and> x < 2 ^ 31"

definition int_wrap :: "int \<Rightarrow> int" where
  "int_wrap x = (x + 2 ^ 31) mod 2 ^ 32 - 2 ^ 31"

definition UINT64_MAX :: u64 where
  "UINT64_MAX = - 1"

record args_t =
  bins :: int
  outfile :: "string option"
  knee :: u64
  min_ticks :: u64
  outbuf_size :: int
  pause :: int
  runtime :: int
  linewid :: int

record bin_t =
  ub :: u64
  count :: int

record outlier_t =
  when_tsc :: u64
  delta :: u64

text \<open>
  A store outside the allocated block is undefined in C; the model stops with the
  offending index instead.
\<close>

datatype fault = OutOfBounds int

section \<open>histo_setup\<close>

text \<open>The two stores \<^verbatim>\<open>bp->ub = v; bp->count = 0;\<close> at slot \<open>i\<close> of the table.\<close>

definition put_bin :: "bin_t list \<Rightarrow> nat \<Rightarrow> u64 \<Rightarrow> fault + bin_t list" where
  "put_bin h i v =
     (if i < length h then Inr (h[i := \<lparr>ub = v, count = 0\<rparr>]) else Inl (OutOfBounds (int i)))"

text \<open>
  First loop: \<^verbatim>\<open>for (bp=histo; bp<histo+(args.bins/2); bp++)\<close>. The index \<open>i\<close> is
  \<^verbatim>\<open>bp-histo\<close>; the product and the quotient are unsigned 64-bit. The loop hands the
  index it stopped at to the second loop.
\<close>

definition lower_ub :: "args_t \<Rightarrow> nat \<Rightarrow> u64" where
  "lower_ub a i =
     min_ticks a + (knee a - min_ticks a) * of_nat (i + 1) div of_int (bins a sdiv 2)"

function fill_lower :: "args_t \<Rightarrow> nat \<Rightarrow> bin_t list \<Rightarrow> fault + (nat \<times> bin_t list)" where
  "fill_lower a i h =
     (if int i < bins a sdiv 2 then
        (case put_bin h i (lower_ub a i) of
           Inl e \<Rightarrow> Inl e
         | Inr h' \<Rightarrow> fill_lower a (i + 1) h')
      else Inr (i, h))"
  by pat_completeness auto
termination
  by (relation "measure (\<lambda>(a, i, h). nat (bins a sdiv 2) - i)") auto

text \<open>
  Second loop: \<^verbatim>\<open>for ( ; bp<histo+args.bins; bp++)\<close>, whose body stores twice, at \<open>i\<close> and,
  after its own \<^verbatim>\<open>bp++\<close>, at \<open>i + 1\<close>, with no test in between.
\<close>

function fill_upper :: "args_t \<Rightarrow> nat \<Rightarrow> u64 \<Rightarrow> bin_t list \<Rightarrow> fault + bin_t list" where
  "fill_upper a i mult h =
     (if int i < bins a then
        (case put_bin h i (mult * 2) of
           Inl e \<Rightarrow> Inl e
         | Inr h1 \<Rightarrow>
             (case put_bin h1 (i + 1) (mult * 10) of
                Inl e \<Rightarrow> Inl e
              | Inr h2 \<Rightarrow> fill_upper a (i + 2) (mult * 10) h2))
      else Inr h)"
  by pat_completeness auto
termination
  by (relation "measure (\<lambda>(a, i, mult, h). nat (bins a) - i)") auto

text \<open>\<^verbatim>\<open>histo[args.bins-1].ub = UINT64_MAX;\<close> stores the bound only.\<close>

definition put_sentinel :: "args_t \<Rightarrow> bin_t list \<Rightarrow> fault + bin_t list" where
  "put_sentinel a h =
     (if 0 \<le> bins a - 1 \<and> nat (bins a - 1) < length h
      then Inr (h[nat (bins a - 1) := (h ! nat (bins a - 1))\<lparr>ub := UINT64_MAX\<rparr>])
      else Inl (OutOfBounds (bins a - 1)))"

text \<open>
  \<open>histo_setup a m\<close>: \<open>m\<close> is the block that \<^verbatim>\<open>malloc(sizeof(bin_t)*args.bins)\<close> returned,
  \<open>bins a\<close> slots of indeterminate contents.
\<close>

definition histo_setup :: "args_t \<Rightarrow> bin_t list \<Rightarrow> fault + bin_t list" where
  "histo_setup a m =
     (case fill_lower a 0 m of
        Inl e \<Rightarrow> Inl e
      | Inr (i, h) \<Rightarrow>
          (case fill_upper a i (knee a) h of
             Inl e \<Rightarrow> Inl e
           | Inr h' \<Rightarrow> put_sentinel a h'))"

section \<open>The bin scan\<close>

text \<open>
  \<^verbatim>\<open>for (bp=histo; *dp>bp->ub; bp++) {}\<close> has no end test. Reading \<^verbatim>\<open>bp->ub\<close> at an index
  beyond the table is the fault.
\<close>

function find_bin :: "bin_t list \<Rightarrow> u64 \<Rightarrow> nat \<Rightarrow> fault + nat" where
  "find_bin h d i =
     (if i < length h then (if d > ub (h ! i) then find_bin h d (i + 1) else Inr i)
      else Inl (OutOfBounds (int i)))"
  by pat_completeness auto
termination
  by (relation "measure (\<lambda>(h, d, i). length h - i)") auto

section \<open>The analysis of one delta\<close>

text \<open>
  The state that \<^verbatim>\<open>main\<close> keeps across the sampling loop: the table, \<^verbatim>\<open>min\<close>, \<^verbatim>\<open>max\<close>,
  \<^verbatim>\<open>delta_count\<close>, \<^verbatim>\<open>delta_sum\<close>, the outlier buffer (\<open>None\<close> is the \<^verbatim>\<open>NULL\<close> pointer), the
  write position \<^verbatim>\<open>obp\<close> as an index into it, and \<^verbatim>\<open>didwrap\<close>. The doubles \<^verbatim>\<open>avg\<close> and
  \<^verbatim>\<open>svn\<close> influence nothing else in the loop and are left out.
\<close>

record run_t =
  histo :: "bin_t list"
  min_delta :: u64
  max_delta :: u64
  delta_count :: u64
  delta_sum :: u64
  outbuf :: "outlier_t list option"
  obp :: nat
  didwrap :: int

text \<open>\<^verbatim>\<open>for (bp=histo; *dp>bp->ub; bp++) {} bp->count++;\<close>\<close>

definition count_delta :: "bin_t list \<Rightarrow> u64 \<Rightarrow> fault + bin_t list" where
  "count_delta h d =
     (case find_bin h d 0 of
        Inl e \<Rightarrow> Inl e
      | Inr k \<Rightarrow> Inr (h[k := (h ! k)\<lparr>count := int_wrap (count (h ! k) + 1)\<rparr>]))"

text \<open>
  The body of \<^verbatim>\<open>if (outbuf!=NULL && *dp>args.knee)\<close>: store at \<^verbatim>\<open>obp\<close>, advance, and go
  back to the start, setting \<^verbatim>\<open>didwrap\<close>, once \<^verbatim>\<open>obp-outbuf >= args.outbuf\<close>.
\<close>

definition record_outlier ::
  "int \<Rightarrow> u64 \<Rightarrow> u64 \<Rightarrow> outlier_t list \<times> nat \<times> int \<Rightarrow> fault + outlier_t list \<times> nat \<times> int" where
  "record_outlier cap t5 d st =
     (case st of (buf, p, w) \<Rightarrow>
        if p < length buf then
          (let buf' = buf[p := \<lparr>when_tsc = t5, delta = d\<rparr>]
           in if cap \<le> int (p + 1) then Inr (buf', 0, 1) else Inr (buf', p + 1, w))
        else Inl (OutOfBounds (int p)))"

definition analyze :: "args_t \<Rightarrow> run_t \<Rightarrow> u64 \<times> u64 \<Rightarrow> fault + run_t" where
  "analyze a s x =
     (case x of (t5, d) \<Rightarrow>
        (case count_delta (histo s) d of
           Inl e \<Rightarrow> Inl e
         | Inr h \<Rightarrow>
             (let s1 = s\<lparr>histo := h,
                        min_delta := (if d < min_delta s then d else min_delta s),
                        max_delta := (if d > max_delta s then d else max_delta s),
                        delta_count := delta_count s + 1,
                        delta_sum := delta_sum s + d\<rparr>
              in (case outbuf s of
                    None \<Rightarrow> Inr s1
                  | Some buf \<Rightarrow>
                      if d > knee a then
                        (case record_outlier (outbuf_size a) t5 d (buf, obp s, didwrap s) of
                           Inl e \<Rightarrow> Inl e
                         | Inr (buf', p, w) \<Rightarrow> Inr (s1\<lparr>outbuf := Some buf', obp := p, didwrap := w\<rparr>))
                      else Inr s1))))"

text \<open>The deltas in the order the loop takes them, each with the \<^verbatim>\<open>t5\<close> of its block.\<close>

fun analyze_list :: "args_t \<Rightarrow> run_t \<Rightarrow> (u64 \<times> u64) list \<Rightarrow> fault + run_t" where
  "analyze_list a s [] = Inr s"
| "analyze_list a s (x # xs) =
     (case analyze a s x of Inl e \<Rightarrow> Inl e | Inr s' \<Rightarrow> analyze_list a s' xs)"

text \<open>
  A block is the eleven readings \<^verbatim>\<open>t0 .. t10\<close>; its ten deltas are the differences of
  neighbours and all carry \<^verbatim>\<open>t5\<close>.
\<close>

definition block_samples :: "u64 list \<Rightarrow> (u64 \<times> u64) list" where
  "block_samples ts = map (\<lambda>i. (ts ! 5, ts ! (i + 1) - ts ! i)) [0..<10]"

section \<open>main, up to the end of sampling\<close>

definition pre_graph_hdr :: string where
  "pre_graph_hdr = ''Time    Ticks    Count        Percent    Cumulative  ''"

definition graph_str :: string where
  "graph_str = ''*******************************************************************''"

text \<open>
  The four argument checks, each adding one to \<^verbatim>\<open>errflag\<close>. \<^verbatim>\<open>strlen\<close> is a \<^verbatim>\<open>size_t\<close>, so the
  \<^verbatim>\<open>int\<close> operand of each comparison is converted to unsigned 64-bit first.
\<close>

definition args_check :: "args_t \<Rightarrow> int" where
  "args_check a =
     (if knee a \<le> min_ticks a then 1 else 0)
   + (if knee a - min_ticks a < of_int (bins a sdiv 2) then 1 else 0)
   + (if (of_int (linewid a) :: u64) < of_nat (length pre_graph_hdr) + 1 then 1 else 0)
   + (if (of_int (linewid a) :: u64) > of_nat (length pre_graph_hdr) + of_nat (length graph_str)
      then 1 else 0)"

text \<open>\<^verbatim>\<open>calloc(args.outbuf, sizeof(outlier_t))\<close>: every slot zero.\<close>

definition outliers_setup :: "args_t \<Rightarrow> outlier_t list" where
  "outliers_setup a = replicate (nat (outbuf_size a)) \<lparr>when_tsc = 0, delta = 0\<rparr>"

definition init_run :: "args_t \<Rightarrow> bin_t list \<Rightarrow> run_t" where
  "init_run a h =
     \<lparr>histo = h, min_delta = UINT64_MAX, max_delta = 0, delta_count = 0, delta_sum = 0,
      outbuf = (if outfile a \<noteq> None \<and> outbuf_size a \<noteq> 0 then Some (outliers_setup a) else None),
      obp = 0, didwrap = 0\<rparr>"

datatype exit_t = ConfigError | ResourceError | Fault fault

text \<open>
  \<open>main_core rc a m blocks\<close>: \<open>rc\<close> says that \<^verbatim>\<open>args_parse\<close> returned 1, \<open>m\<close> is the block
  \<^verbatim>\<open>malloc\<close> returns for the table, \<open>blocks\<close> are the timestamp blocks read until the
  deadline. A negative \<^verbatim>\<open>args.outbuf\<close> is a \<^verbatim>\<open>calloc\<close> of more than the address space,
  which fails. The result is the state handed to the report.
\<close>

definition main_core :: "bool \<Rightarrow> args_t \<Rightarrow> bin_t list \<Rightarrow> u64 list list \<Rightarrow> exit_t + run_t" where
  "main_core rc a m blocks =
     (if (if rc then 1 else 0) + args_check a \<noteq> 0 then Inl ConfigError
      else if outfile a \<noteq> None \<and> outbuf_size a < 0 then Inl ResourceError
      else (case histo_setup a m of
              Inl e \<Rightarrow> Inl (Fault e)
            | Inr h \<Rightarrow>
                (case analyze_list a (init_run a h) (concat (map block_samples blocks)) of
                   Inl e \<Rightarrow> Inl (Fault e)
                 | Inr s \<Rightarrow> Inr s)))"

section \<open>The report\<close>







text \<open>
  The bar of a bin. \<^verbatim>\<open>log\<close> is called on \<^verbatim>\<open>((double)bp->count)-M_E\<close> for every bin; the
  subtraction of the two doubles has the sign of the exact difference, which is
  \<open>log_arg\<close>. \<open>M_E\<close> is the literal of \<^verbatim>\<open>math.h\<close>.

  The program reads the counter with the \<^verbatim>\<open>rdtsc\<close> instruction, so it is compiled for x86
  only. There \<^verbatim>\<open>log\<close> of a negative argument is a NaN, its product with \<^verbatim>\<open>graph_scale\<close>
  is a NaN whatever \<^verbatim>\<open>graph_scale\<close> is, and the conversion of a NaN to \<^verbatim>\<open>int\<close> gives
  \<^verbatim>\<open>INT_MIN\<close>. For an argument that is not negative, what \<^verbatim>\<open>graph_scale*log(...)\<close> gives
  after conversion to \<^verbatim>\<open>int\<close> is left to the parameter \<open>f\<close>, a function of the argument
  of \<^verbatim>\<open>log\<close>.
\<close>

definition M_E :: real where
  "M_E = 2.7182818284590452354"

definition log_arg :: "int \<Rightarrow> real" where
  "log_arg c = real_of_int c - M_E"

definition INT_MIN :: int where
  "INT_MIN = - (2 ^ 31)"

definition conv_x86 :: "(real \<Rightarrow> int) \<Rightarrow> real \<Rightarrow> int" where
  "conv_x86 f x = (if x < 0 then INT_MIN else f x)"

definition countlog :: "(real \<Rightarrow> int) \<Rightarrow> int \<Rightarrow> int" where
  "countlog f c =
     (let cl = conv_x86 f (log_arg c);
          cl = (if cl < 0 then 0 else cl);
          cl = (if cl = 0 \<and> c \<noteq> 0 then 1 else cl)
      in cl)"

text \<open>The bars of all rows, in the order of the table.\<close>

definition bar_lengths :: "(real \<Rightarrow> int) \<Rightarrow> bin_t list \<Rightarrow> int list" where
  "bar_lengths f h = map (\<lambda>b. countlog f (count b)) h"

text \<open>
  \<^verbatim>\<open>if (bp->count > max_count) max_count = bp->count;\<close> over the table, and the
  argument of the \<^verbatim>\<open>log\<close> in \<^verbatim>\<open>graph_scale\<close>.
\<close>

definition max_count :: "bin_t list \<Rightarrow> u64" where
  "max_count h = fold (\<lambda>b m. if of_int (count b) > m then of_int (count b) else m) h 0"

definition scale_log_arg :: "bin_t list \<Rightarrow> real" where
  "scale_log_arg h = real (unat (max_count h)) - M_E"

text \<open>
  The arguments of all calls of \<^verbatim>\<open>log\<close> in the report, in order: the one in
  \<^verbatim>\<open>graph_scale\<close>, then one for each bin. No call is guarded.
\<close>

definition log_calls :: "bin_t list \<Rightarrow> real list" where
  "log_calls h = scale_log_arg h # map (\<lambda>b. log_arg (count b)) h"

text \<open>
  The export loop over all slots of the buffer; a line of the file is represented by
  the slot it is printed from.
\<close>

fun export_outliers :: "outlier_t list \<Rightarrow> outlier_t list" where
  "export_outliers [] = []"
| "export_outliers (x # xs) =
     (if when_tsc x = 0 then export_outliers xs else x # export_outliers xs)"

section \<open>The table and the configurations of the specification\<close>

text \<open>
  The table as the specification describes it: the linear bounds below index
  \<^verbatim>\<open>bins/2\<close>, then alternately twice the multiplier and ten times the multiplier, the
  multiplier starting at the knee, and the last bound replaced by the sentinel.
\<close>

definition upper_ub :: "u64 \<Rightarrow> nat \<Rightarrow> u64" where
  "upper_ub mult k = (if even k then mult * 10 ^ (k div 2) * 2 else mult * 10 ^ (k div 2 + 1))"

definition histo_table :: "args_t \<Rightarrow> bin_t list" where
  "histo_table a =
     map (\<lambda>j. \<lparr>ub = (if int j = bins a - 1 then UINT64_MAX
                     else if int j < bins a sdiv 2 then lower_ub a j
                     else upper_ub (knee a) (j - nat (bins a sdiv 2))),
               count = 0\<rparr>)
         [0..<nat (bins a)]"

text \<open>
  The valid Configuration of the specification: \<^verbatim>\<open>bins\<close> even and at least 2,
  \<^verbatim>\<open>knee > min\<close>, \<^verbatim>\<open>knee - min >= bins/2\<close>.
\<close>

definition valid_config :: "args_t \<Rightarrow> bool" where
  "valid_config a \<longleftrightarrow>
     c_int (bins a) \<and> even (bins a) \<and> 2 \<le> bins a \<and> min_ticks a < knee a
     \<and> bins a div 2 \<le> uint (knee a) - uint (min_ticks a)"

text \<open>The bounds of the table as natural numbers, without wrap-around.\<close>

definition lower_nat :: "args_t \<Rightarrow> nat \<Rightarrow> nat" where
  "lower_nat a j = unat (min_ticks a)
     + (unat (knee a) - unat (min_ticks a)) * (j + 1) div nat (bins a div 2)"

definition upper_nat :: "nat \<Rightarrow> nat \<Rightarrow> nat" where
  "upper_nat K k = (if even k then K * 10 ^ (k div 2) * 2 else K * 10 ^ (k div 2 + 1))"

section \<open>Auxiliary notions for the accumulator\<close>

text \<open>The initial \<^verbatim>\<open>args\<close> of the source, with the default of every option.\<close>

definition args :: args_t where
  "args = \<lparr>bins = 20, outfile = None, knee = 50, min_ticks = 10, outbuf_size = 10000,
           pause = 0, runtime = 1, linewid = 79\<rparr>"

text \<open>
  The outliers of a sample sequence, in the order of capture: what the two stores
  \<^verbatim>\<open>obp->when = t5; obp->delta = *dp;\<close> write for each delta above the knee.
\<close>

definition outliers_of :: "args_t \<Rightarrow> (u64 \<times> u64) list \<Rightarrow> outlier_t list" where
  "outliers_of a xs =
     map (\<lambda>(t5, d). \<lparr>when_tsc = t5, delta = d\<rparr>) (filter (\<lambda>(t5, d). knee a < d) xs)"

text \<open>
  The ring after the outliers \<open>os\<close>: read from the write position \<open>p\<close> round to
  \<open>p - 1\<close>, the buffer holds the last entries of the zero-filled buffer followed by
  \<open>os\<close>.
\<close>

definition ring_inv :: "int \<Rightarrow> outlier_t list \<Rightarrow> outlier_t list \<times> nat \<times> int \<Rightarrow> bool" where
  "ring_inv cap os st \<longleftrightarrow>
     (case st of (buf, p, w) \<Rightarrow>
        int (length buf) = cap \<and> p = length os mod length buf
        \<and> w = (if length buf \<le> length os then 1 else 0)
        \<and> drop p buf @ take p buf
            = drop (length os) (replicate (length buf) \<lparr>when_tsc = 0, delta = 0\<rparr> @ os))"

definition run_inv :: "args_t \<Rightarrow> outlier_t list \<Rightarrow> run_t \<Rightarrow> bool" where
  "run_inv a os s \<longleftrightarrow>
     histo s \<noteq> [] \<and> ub (last (histo s)) = UINT64_MAX
     \<and> (case outbuf s of
           None \<Rightarrow> True
         | Some buf \<Rightarrow> 0 < outbuf_size a \<and> ring_inv (outbuf_size a) os (buf, obp s, didwrap s))"




declare fill_lower.simps [simp del] fill_upper.simps [simp del] find_bin.simps [simp del]

section \<open>Properties of histo_setup\<close>

lemma put_bin_Inr: "i < length h \<Longrightarrow> put_bin h i v = Inr (h[i := \<lparr>ub = v, count = 0\<rparr>])"
  by (simp add: put_bin_def)

lemma fill_lower_spec:
  assumes "bins a sdiv 2 \<le> int (length h)" and "int i \<le> bins a sdiv 2"
  shows "\<exists>h'. fill_lower a i h = Inr (nat (bins a sdiv 2), h') \<and> length h' = length h
           \<and> (\<forall>j. i \<le> j \<and> int j < bins a sdiv 2 \<longrightarrow> h' ! j = \<lparr>ub = lower_ub a j, count = 0\<rparr>)
           \<and> (\<forall>j. j < i \<or> bins a sdiv 2 \<le> int j \<longrightarrow> h' ! j = h ! j)"
  using assms
proof (induction a i h rule: fill_lower.induct)
  case (1 a i h)
  show ?case
  proof (cases "int i < bins a sdiv 2")
    case False
    then have "nat (bins a sdiv 2) = i" using "1.prems"(2) by simp
    then show ?thesis using False by (subst fill_lower.simps) auto
  next
    case True
    then have il: "i < length h" using "1.prems"(1) by simp
    let ?h1 = "h[i := \<lparr>ub = lower_ub a i, count = 0\<rparr>]"
    have p: "put_bin h i (lower_ub a i) = Inr ?h1" using il by (rule put_bin_Inr)
    have "bins a sdiv 2 \<le> int (length ?h1)" using "1.prems"(1) by simp
    moreover have "int (i + 1) \<le> bins a sdiv 2" using True by simp
    ultimately obtain h' where h': "fill_lower a (i + 1) ?h1 = Inr (nat (bins a sdiv 2), h')"
      "length h' = length ?h1"
      "\<forall>j. i + 1 \<le> j \<and> int j < bins a sdiv 2 \<longrightarrow> h' ! j = \<lparr>ub = lower_ub a j, count = 0\<rparr>"
      "\<forall>j. j < i + 1 \<or> bins a sdiv 2 \<le> int j \<longrightarrow> h' ! j = ?h1 ! j"
      using "1.IH" [OF True p] by blast
    have f: "fill_lower a i h = Inr (nat (bins a sdiv 2), h')"
      using True p h'(1) by (subst fill_lower.simps) simp
    have a1: "\<forall>j. i \<le> j \<and> int j < bins a sdiv 2 \<longrightarrow> h' ! j = \<lparr>ub = lower_ub a j, count = 0\<rparr>"
    proof (intro allI impI)
      fix j assume j: "i \<le> j \<and> int j < bins a sdiv 2"
      show "h' ! j = \<lparr>ub = lower_ub a j, count = 0\<rparr>"
      proof (cases "j = i")
        case True
        then have "h' ! j = ?h1 ! i" using h'(4) by simp
        then show ?thesis using il True by simp
      next
        case False
        then show ?thesis using j h'(3) by simp
      qed
    qed
    have a2: "\<forall>j. j < i \<or> bins a sdiv 2 \<le> int j \<longrightarrow> h' ! j = h ! j"
    proof (intro allI impI)
      fix j assume j: "j < i \<or> bins a sdiv 2 \<le> int j"
      then have "j \<noteq> i" using True by auto
      moreover have "h' ! j = ?h1 ! j" using j h'(4) by auto
      ultimately show "h' ! j = h ! j" by simp
    qed
    show ?thesis using f h'(2) a1 a2 by simp
  qed
qed



lemma fill_upper_odd:
  assumes "int (length h) = bins a" and "int i \<le> bins a" and "odd (length h - i)"
  shows "fill_upper a i mult h = Inl (OutOfBounds (bins a))"
  using assms
proof (induction a i mult h rule: fill_upper.induct)
  case (1 a i mult h)
  have il: "i < length h" using "1.prems" by (cases "i = length h") auto
  then have c: "int i < bins a" using "1.prems"(1) by simp
  let ?h1 = "h[i := \<lparr>ub = mult * 2, count = 0\<rparr>]"
  have p1: "put_bin h i (mult * 2) = Inr ?h1" using il by (rule put_bin_Inr)
  show ?case
  proof (cases "i + 1 = length h")
    case True
    then have "put_bin ?h1 (i + 1) (mult * 10) = Inl (OutOfBounds (bins a))"
      using "1.prems"(1) by (simp add: put_bin_def)
    then show ?thesis using c p1 by (subst fill_upper.simps) simp
  next
    case False
    then have il2: "i + 1 < length ?h1" using il by simp
    let ?h2 = "?h1[i + 1 := \<lparr>ub = mult * 10, count = 0\<rparr>]"
    have p2: "put_bin ?h1 (i + 1) (mult * 10) = Inr ?h2" using il2 by (rule put_bin_Inr)
    have "int (length ?h2) = bins a" using "1.prems"(1) by simp
    moreover have "int (i + 2) \<le> bins a" using il2 "1.prems"(1) by simp
    moreover have "odd (length ?h2 - (i + 2))" using "1.prems"(3) il2 by simp
    ultimately have "fill_upper a (i + 2) (mult * 10) ?h2 = Inl (OutOfBounds (bins a))"
      using "1.IH" [OF c p1 p2] by blast
    then show ?thesis using c p1 p2 by (subst fill_upper.simps) simp
  qed
qed



lemma sdiv2_nonneg: "0 \<le> b \<Longrightarrow> b sdiv 2 = b div (2::int)"
  by (simp add: signed_divide_int_def sgn_if)

lemma histo_setup_odd:
  assumes "int (length m) = bins a" and "odd (length m - nat (bins a div 2))"
  shows "histo_setup a m = Inl (OutOfBounds (bins a))"
proof -
  have b0: "0 \<le> bins a" using assms(1) by linarith
  then have sd: "bins a sdiv 2 = bins a div 2" by (rule sdiv2_nonneg)
  have "bins a sdiv 2 \<le> int (length m)" using sd b0 assms(1) by simp
  moreover have "int 0 \<le> bins a sdiv 2" using sd b0 by simp
  ultimately obtain h1 where h1: "fill_lower a 0 m = Inr (nat (bins a sdiv 2), h1)"
    "length h1 = length m"
    using fill_lower_spec [of a m 0] by blast
  have "int (length h1) = bins a" using h1(2) assms(1) by simp
  moreover have "int (nat (bins a sdiv 2)) \<le> bins a" using sd b0 by simp
  moreover have "odd (length h1 - nat (bins a sdiv 2))" using assms(2) sd h1(2) by simp
  ultimately have "fill_upper a (nat (bins a sdiv 2)) (knee a) h1 = Inl (OutOfBounds (bins a))"
    by (rule fill_upper_odd)
  then show ?thesis using h1(1) by (simp add: histo_setup_def)
qed


lemma two_q_le: "2 * q \<le> (10::nat) ^ q"
proof (induction q)
  case 0
  show ?case by simp
next
  case (Suc q)
  define x :: nat where "x = 10 ^ q"
  have "1 \<le> x" by (simp add: x_def)
  moreover have "2 * q \<le> x" using Suc by (simp add: x_def)
  ultimately have "2 * q + 2 \<le> 10 * x" by arith
  then show ?case by (simp add: x_def)
qed

lemma unat_of_nat_small: "n < 2 ^ 64 \<Longrightarrow> unat (of_nat n :: u64) = n"
  by (simp add: unat_of_nat)

lemma upper_ub_of_nat: "upper_ub k' k = of_nat (upper_nat (unat k') k)"
  by (simp add: upper_ub_def upper_nat_def)

lemma upper_nat_le:
  assumes "k + 2 \<le> 2 * q"
  shows "upper_nat K k \<le> K * 10 ^ q"
proof (cases "even k")
  case True
  then obtain m where m: "k = 2 * m" by (auto elim: evenE)
  then have "m + 1 \<le> q" using assms by simp
  then have "(10::nat) ^ (m + 1) \<le> 10 ^ q" by (intro power_increasing) simp_all
  moreover have "(10::nat) ^ m * 2 \<le> 10 ^ (m + 1)" by simp
  ultimately have "(10::nat) ^ m * 2 \<le> 10 ^ q" by (rule le_trans [rotated])
  then have "K * (10 ^ m * 2) \<le> K * 10 ^ q" by (rule mult_le_mono2)
  then show ?thesis using True m by (simp add: upper_nat_def mult.assoc)
next
  case False
  then obtain m where m: "k = 2 * m + 1" by (auto elim: oddE)
  then have "m + 1 \<le> q" using assms by simp
  then have "(10::nat) ^ (m + 1) \<le> 10 ^ q" by (intro power_increasing) simp_all
  then have "K * 10 ^ (m + 1) \<le> K * 10 ^ q" by (rule mult_le_mono2)
  then show ?thesis using False m by (simp add: upper_nat_def)
qed

lemma upper_nat_step:
  assumes "0 < K"
  shows "upper_nat K k < upper_nat K (k + 1)"
proof (cases "even k")
  case True
  then obtain m where m: "k = 2 * m" by (auto elim: evenE)
  have "0 < K * 10 ^ m" using assms by simp
  then have "K * 10 ^ m * 2 < K * 10 ^ m * 10" by simp
  then show ?thesis using True m by (simp add: upper_nat_def mult.assoc)
next
  case False
  then obtain m where m: "k = 2 * m + 1" by (auto elim: oddE)
  have "0 < K * 10 ^ (m + 1)" using assms by simp
  then have "K * 10 ^ (m + 1) < K * 10 ^ (m + 1) * 2" by simp
  moreover have "(k + 1) div 2 = m + 1" using m by simp
  ultimately show ?thesis using False m by (simp add: upper_nat_def)
qed

lemma div_step:
  assumes "0 < H" and "H \<le> d"
  shows "x div H < (x + d) div (H::nat)"
proof -
  have "x div H < (x + H) div H" using assms(1) by simp
  also have "\<dots> \<le> (x + d) div H" using assms(2) by (intro div_le_mono) simp
  finally show ?thesis .
qed


lemma lower_ub_unat:
  assumes "unat (min_ticks a) < unat (knee a)" and "0 \<le> bins a"
    and "j < nat (bins a div 2)"
    and "unat (knee a) * nat (bins a div 2) < 2 ^ 64"
  shows "unat (lower_ub a j) = lower_nat a j" and "lower_nat a j \<le> unat (knee a)"
proof -
  let ?K = "unat (knee a)" and ?M = "unat (min_ticks a)" and ?H = "nat (bins a div 2)"
  define dw where "dw = knee a - min_ticks a"
  define jw :: u64 where "jw = of_nat (j + 1)"
  define hw :: u64 where "hw = of_int (bins a sdiv 2)"
  have lu: "lower_ub a j = min_ticks a + dw * jw div hw"
    by (simp only: lower_ub_def dw_def jw_def hw_def)
  have H0: "0 < ?H" using assms(3) by simp
  have sd: "bins a sdiv 2 = bins a div 2" using assms(2) by (rule sdiv2_nonneg)
  have d: "unat dw = ?K - ?M"
    using assms(1) by (simp add: dw_def unat_sub word_le_nat_alt)
  have "(?K - ?M) * (j + 1) \<le> ?K * ?H" using assms(3) by (intro mult_le_mono) simp_all
  then have pb: "(?K - ?M) * (j + 1) < 2 ^ 64" using assms(4) by (rule le_less_trans)
  have K1: "1 \<le> ?K" using assms(1) by simp
  have "1 * ?H \<le> ?K * ?H" using K1 by (rule mult_le_mono1)
  then have HK: "?H \<le> ?K * ?H" by simp
  have "j + 1 \<le> ?H" using assms(3) by simp
  then have "j + 1 \<le> ?K * ?H" using HK by (rule le_trans)
  then have j1: "j + 1 < 2 ^ 64" using assms(4) by (rule le_less_trans)
  have uj: "unat jw = j + 1" unfolding jw_def using j1 by (rule unat_of_nat_small)
  have "unat dw * unat jw < 2 ^ LENGTH(64)" using pb by (simp add: d uj)
  then have "unat (dw * jw) = unat dw * unat jw" by (rule unat_mult_lem [THEN iffD1])
  then have pr: "unat (dw * jw) = (?K - ?M) * (j + 1)" by (simp add: d uj)
  have "?H < 2 ^ 64" using HK assms(4) by (rule le_less_trans)
  then have "unat (of_nat ?H :: u64) = ?H" by (rule unat_of_nat_small)
  moreover have "int ?H = bins a sdiv 2" using assms(2) sd by simp
  then have "(of_nat ?H :: u64) = hw" unfolding hw_def by (metis of_int_of_nat_eq)
  ultimately have uh: "unat hw = ?H" by simp
  have q: "unat (dw * jw div hw) = (?K - ?M) * (j + 1) div ?H"
    by (simp add: unat_div pr uh)
  have "(?K - ?M) * (j + 1) div ?H \<le> (?K - ?M) * ?H div ?H"
    using assms(3) by (intro div_le_mono mult_le_mono) simp_all
  then have qb: "(?K - ?M) * (j + 1) div ?H \<le> ?K - ?M" using H0 by simp
  then show le: "lower_nat a j \<le> ?K" using assms(1) by (simp add: lower_nat_def)
  have "?K < 2 ^ 64" using unsigned_less [of "knee a", where ?'a = nat] by simp
  then have "unat (min_ticks a) + unat (dw * jw div hw) < 2 ^ LENGTH(64)"
    using qb assms(1) by (simp add: q)
  then have "unat (min_ticks a + dw * jw div hw) = unat (min_ticks a) + unat (dw * jw div hw)"
    by (rule unat_add_lem [THEN iffD1])
  then show "unat (lower_ub a j) = lower_nat a j" by (simp add: lu q lower_nat_def)
qed


lemma histo_table_strictly_increasing:
  assumes "valid_config a" and "even (bins a div 2)"
    and "unat (knee a) * 10 ^ nat (bins a div 4) < 2 ^ 64"
    and "i < j" and "int j < bins a - 1"
  shows "ub (histo_table a ! i) < ub (histo_table a ! j)"
proof -
  let ?K = "unat (knee a)" and ?M = "unat (min_ticks a)"
  define H where "H = nat (bins a div 2)"
  define Q where "Q = nat (bins a div 4)"
  define n where "n = nat (bins a)"
  define E where "E k = (if k < H then lower_nat a k else upper_nat ?K (k - H))" for k
  from assms(1) have b2: "2 \<le> bins a" and eb: "even (bins a)"
    and MK: "?M < ?K" and HD: "bins a div 2 \<le> uint (knee a) - uint (min_ticks a)"
    by (simp_all add: valid_config_def word_less_nat_alt)
  have b0: "0 \<le> bins a" using b2 by simp
  have sd: "bins a sdiv 2 = bins a div 2" using b0 by (rule sdiv2_nonneg)
  have "bins a div 4 = bins a div 2 div 2" by simp
  then have "bins a div 2 = 2 * (bins a div 4)" using assms(2) by simp
  then have HQ: "H = 2 * Q" unfolding H_def Q_def using b0 by (simp add: nat_mult_distrib)
  have "bins a = 2 * (bins a div 2)" using eb by simp
  then have nH: "n = 2 * H" unfolding n_def H_def using b0 by (simp add: nat_mult_distrib)
  have H1: "1 \<le> H" unfolding H_def using b2 by simp
  then have H2: "2 \<le> H" using HQ by simp
  have K0: "0 < ?K" using MK by simp
  have "?K * H \<le> ?K * 10 ^ Q" unfolding HQ using two_q_le [of Q] by (rule mult_le_mono2)
  then have KH: "?K * nat (bins a div 2) < 2 ^ 64"
    unfolding H_def [symmetric] using assms(3) [folded Q_def] by (rule le_less_trans)
  have "int H = bins a div 2" using b0 by (simp add: H_def)
  then have "int H \<le> int ?K - int ?M"
    using HD unfolding uint_nat [of "knee a"] uint_nat [of "min_ticks a"] by linarith
  then have Hd: "H \<le> ?K - ?M" by linarith
  have low: "unat (lower_ub a k) = lower_nat a k" "lower_nat a k \<le> ?K" if "k < H" for k
    using lower_ub_unat [OF MK b0 that [unfolded H_def] KH] by simp_all
  have up: "unat (upper_ub (knee a) k) = upper_nat ?K k" if "k + 2 \<le> H" for k
  proof -
    have "upper_nat ?K k \<le> ?K * 10 ^ Q" using that [unfolded HQ] by (rule upper_nat_le)
    then have "upper_nat ?K k < 2 ^ 64" using assms(3) [folded Q_def] by (rule le_less_trans)
    then show ?thesis unfolding upper_ub_of_nat by (rule unat_of_nat_small)
  qed
  have entry: "unat (ub (histo_table a ! k)) = E k" if "k + 1 < n" for k
  proof -
    have kn: "k < nat (bins a)" and nl: "int k \<noteq> bins a - 1" using that by (simp_all add: n_def)
    have u: "ub (histo_table a ! k)
             = (if int k < bins a sdiv 2 then lower_ub a k
                else upper_ub (knee a) (k - nat (bins a sdiv 2)))"
      using kn nl by (simp add: histo_table_def)
    show ?thesis
    proof (cases "k < H")
      case True
      then have "int k < bins a sdiv 2" by (simp add: sd H_def)
      then show ?thesis using True u low(1) [OF True] by (simp add: E_def)
    next
      case False
      then have "\<not> int k < bins a sdiv 2" by (simp add: sd H_def)
      moreover have "k - H + 2 \<le> H" using that False nH by simp
      ultimately show ?thesis using False u up [of "k - H"] by (simp add: E_def H_def sd)
    qed
  qed
  have step: "E k < E (k + 1)" for k
  proof -
    consider "k + 1 < H" | "k + 1 = H" | "H \<le> k" by arith
    then show ?thesis
    proof cases
      case 1
      define d where "d = ?K - ?M"
      define x where "x = d * (k + 1) div H"
      define y where "y = d * (k + 1 + 1) div H"
      have "d * (k + 1) div H < (d * (k + 1) + d) div H"
        using H1 Hd unfolding d_def by (intro div_step) simp_all
      moreover have "d * (k + 1 + 1) = d * (k + 1) + d" by (simp add: algebra_simps)
      ultimately have lt: "x < y" unfolding x_def y_def by (simp only:)
      have "E k = ?M + x" using 1 by (simp add: E_def lower_nat_def H_def d_def x_def)
      moreover have "E (k + 1) = ?M + y"
        using 1 by (simp add: E_def lower_nat_def H_def d_def y_def)
      ultimately show ?thesis using lt by linarith
    next
      case 2
      then have "k < H" by simp
      then have "E k \<le> ?K" using low(2) by (simp add: E_def)
      moreover have "E (k + 1) = upper_nat ?K 0" using 2 by (simp add: E_def)
      moreover have "?K < upper_nat ?K 0" using K0 by (simp add: upper_nat_def)
      ultimately show ?thesis by simp
    next
      case 3
      then have "k + 1 - H = k - H + 1" by simp
      then show ?thesis using 3 upper_nat_step [OF K0, of "k - H"] by (simp add: E_def)
    qed
  qed
  have mono: "E i < E k" if "i < k" for k
    using that
  proof (induction k)
    case 0
    then show ?case by simp
  next
    case (Suc k)
    show ?case
    proof (cases "i = k")
      case True
      then show ?thesis using step [of k] by simp
    next
      case False
      then have "E i < E k" using Suc by simp
      then show ?thesis using step [of k] by simp
    qed
  qed
  have jn: "j + 1 < n" using assms(5) by (simp add: n_def)
  then have "i + 1 < n" using assms(4) by simp
  then have "unat (ub (histo_table a ! i)) = E i" by (rule entry)
  moreover have "unat (ub (histo_table a ! j)) = E j" using jn by (rule entry)
  ultimately show ?thesis using mono [OF assms(4)] by (simp add: word_less_nat_alt)
qed

text \<open>
  With \<^verbatim>\<open>-b 80\<close> and the default knee the multiplier passes \<open>2^64\<close>: the bound at index
  76 is below the one at index 75.
\<close>

lemma histo_table_wraps_bins_80:
  "ub (histo_table (args\<lparr>bins := 80\<rparr>) ! 76) < ub (histo_table (args\<lparr>bins := 80\<rparr>) ! 75)"
  by (simp add: histo_table_def args_def upper_ub_def signed_divide_int_def)

text \<open>
  C1. For a valid Configuration whose half \<^verbatim>\<open>bins/2\<close> is odd (\<^verbatim>\<open>bins\<close> = 2, 6, 10, ...),
  the second loop of \<^verbatim>\<open>histo_setup\<close> stores at index \<^verbatim>\<open>bins\<close>, one slot past the table,
  whatever the allocated block holds.
\<close>

theorem histo_setup_writes_past_table:
  assumes "valid_config a" and "odd (bins a div 2)" and "int (length m) = bins a"
  shows "histo_setup a m = Inl (OutOfBounds (bins a))"
proof -
  have "even (bins a)" and b: "2 \<le> bins a" using assms(1) by (simp_all add: valid_config_def)
  then obtain k where k: "bins a = 2 * k" by (auto elim: evenE)
  have "length m = nat (2 * k)" using assms(3) k by simp
  moreover have "0 \<le> k" using b k by simp
  ultimately have "length m - nat (bins a div 2) = nat k"
    using k by (simp add: nat_mult_distrib)
  moreover have "odd (nat k)" using assms(2) k \<open>0 \<le> k\<close> by (simp add: even_nat_iff)
  ultimately have "odd (length m - nat (bins a div 2))" by simp
  with assms(3) show ?thesis by (rule histo_setup_odd)
qed

theorem histo_setup_writes_past_table_witness:
  "valid_config \<lparr>bins = 10, outfile = None, knee = 50, min_ticks = 10, outbuf_size = 10000,
                 pause = 0, runtime = 1, linewid = 79\<rparr>
   \<and> histo_setup \<lparr>bins = 10, outfile = None, knee = 50, min_ticks = 10, outbuf_size = 10000,
                   pause = 0, runtime = 1, linewid = 79\<rparr>
        (replicate 10 \<lparr>ub = 0, count = 0\<rparr>) = Inl (OutOfBounds 10)"
proof -
  let ?a = "\<lparr>bins = 10, outfile = None, knee = 50, min_ticks = 10, outbuf_size = 10000,
             pause = 0, runtime = 1, linewid = 79\<rparr>"
  have v: "valid_config ?a" by (simp add: valid_config_def c_int_def)
  have o: "odd (bins ?a div 2)" by simp
  have l: "int (length (replicate 10 \<lparr>ub = 0, count = 0\<rparr>)) = bins ?a" by simp
  from histo_setup_writes_past_table [OF v o l] v show ?thesis by simp
qed

section \<open>Properties of the bin scan\<close>

lemma find_bin_from:
  assumes "i < length h" and "ub (last h) = UINT64_MAX"
  shows "\<exists>k. find_bin h d i = Inr k \<and> i \<le> k \<and> k < length h \<and> d \<le> ub (h ! k)
             \<and> (\<forall>j. i \<le> j \<and> j < k \<longrightarrow> ub (h ! j) < d)"
  using assms
proof (induction h d i rule: find_bin.induct)
  case (1 h d i)
  show ?case
  proof (cases "d > ub (h ! i)")
    case False
    then show ?thesis using "1.prems" by (subst find_bin.simps) auto
  next
    case True
    have "i \<noteq> length h - 1"
    proof
      assume "i = length h - 1"
      moreover have "h \<noteq> []" using "1.prems"(1) by auto
      ultimately have "h ! i = last h" by (simp add: last_conv_nth)
      then have "ub (h ! i) = - 1" using "1.prems"(2) by (simp add: UINT64_MAX_def)
      then show False using True by simp
    qed
    then have lt: "i + 1 < length h" using "1.prems"(1) by arith
    from "1.IH" [OF "1.prems"(1) True lt "1.prems"(2)]
    obtain k where k: "find_bin h d (i + 1) = Inr k" "i + 1 \<le> k" "k < length h"
      "d \<le> ub (h ! k)" "\<forall>j. i + 1 \<le> j \<and> j < k \<longrightarrow> ub (h ! j) < d"
      by blast
    have "\<forall>j. i \<le> j \<and> j < k \<longrightarrow> ub (h ! j) < d"
    proof (intro allI impI)
      fix j assume j: "i \<le> j \<and> j < k"
      show "ub (h ! j) < d"
      proof (cases "j = i")
        case True
        then show ?thesis using \<open>d > ub (h ! i)\<close> by simp
      next
        case False
        then show ?thesis using j k(5) by auto
      qed
    qed
    moreover have "find_bin h d i = Inr k"
      using True "1.prems"(1) k(1) by (subst find_bin.simps) simp
    ultimately show ?thesis using k by auto
  qed
qed

text \<open>
  C4. For every delta and every table whose last entry has the bound \<open>UINT64_MAX\<close>,
  the unguarded scan stops at an index inside the table: the index of the first bin
  whose upper bound is at least the delta. It never reads past the end.
\<close>

theorem find_bin_terminates_in_table:
  assumes "h \<noteq> []" and "ub (last h) = UINT64_MAX"
  shows "\<exists>k. find_bin h d 0 = Inr k \<and> k < length h \<and> d \<le> ub (h ! k)
             \<and> (\<forall>j. j < k \<longrightarrow> ub (h ! j) < d)"
proof -
  from assms(1) have "0 < length h" by simp
  from find_bin_from [OF this assms(2), of d] show ?thesis by auto
qed

theorem find_bin_terminates_in_table_witness:
  "[\<lparr>ub = 30, count = 0\<rparr>, \<lparr>ub = UINT64_MAX, count = 0\<rparr>] \<noteq> []
   \<and> ub (last [\<lparr>ub = 30, count = 0\<rparr>, \<lparr>ub = UINT64_MAX, count = 0\<rparr>]) = UINT64_MAX
   \<and> find_bin [\<lparr>ub = 30, count = 0\<rparr>, \<lparr>ub = UINT64_MAX, count = 0\<rparr>] 1000000 0 = Inr 1"
proof -
  let ?h = "[\<lparr>ub = 30, count = 0\<rparr>, \<lparr>ub = UINT64_MAX, count = 0\<rparr>]"
  have a: "?h \<noteq> []" by simp
  have b: "ub (last ?h) = UINT64_MAX" by simp
  from find_bin_terminates_in_table [OF a b, of 1000000]
  obtain k where k: "find_bin ?h 1000000 0 = Inr k" "k < length ?h"
    "\<forall>j. j < k \<longrightarrow> ub (?h ! j) < (1000000 :: u64)" by blast
  have "k \<noteq> 0"
  proof
    assume "k = 0"
    then have "find_bin ?h 1000000 0 = Inr 0" using k(1) by simp
    then show False by (simp add: find_bin.simps UINT64_MAX_def)
  qed
  then have "k = 1" using k(2) by simp
  then show ?thesis using k(1) a b by simp
qed

section \<open>The argument checks\<close>

lemma hdr_len: "length pre_graph_hdr = 53" by (simp add: pre_graph_hdr_def)
lemma bar_len: "length graph_str = 67" by (simp add: graph_str_def)

lemma uint_of_c_int:
  assumes "c_int l"
  shows "uint (of_int l :: u64) = (if 0 \<le> l then l else l + 2 ^ 64)"
proof -
  have u: "uint (of_int l :: u64) = l mod 2 ^ 64" by (simp add: uint_word_of_int take_bit_eq_mod)
  show ?thesis
  proof (cases "0 \<le> l")
    case True
    then have "l mod 2 ^ 64 = l" using assms unfolding c_int_def by (intro mod_pos_pos_trivial) auto
    then show ?thesis using u True by simp
  next
    case False
    have "l mod 2 ^ 64 = (l + 2 ^ 64) mod 2 ^ 64" by simp
    also have "\<dots> = l + 2 ^ 64" using assms False unfolding c_int_def
      by (intro mod_pos_pos_trivial) auto
    finally show ?thesis using u False by simp
  qed
qed

lemma linewid_checks:
  assumes "c_int l"
  shows "((of_int l :: u64) < 54 \<or> (of_int l :: u64) > 120) \<longleftrightarrow> (l < 54 \<or> 120 < l)"
  using assms uint_of_c_int [OF assms] unfolding c_int_def
  by (auto simp: word_less_def)

lemma knee_checks:
  "(k \<le> m \<or> k - m < (of_int h :: u64)) \<longleftrightarrow> (uint k \<le> uint m \<or> uint k - uint m < h mod 2 ^ 64)"
proof (cases "k \<le> m")
  case True
  then show ?thesis by (simp add: word_le_def)
next
  case False
  then have "m \<le> k" by simp
  then have "uint (k - m) = uint k - uint m" by (simp add: uint_minus_simple_alt)
  moreover have "uint (of_int h :: u64) = h mod 2 ^ 64" by (simp add: uint_word_of_int take_bit_eq_mod)
  ultimately show ?thesis using False by (simp add: word_less_def word_le_def)
qed

lemma args_check_iff:
  assumes "c_int (linewid a)"
  shows "args_check a \<noteq> 0 \<longleftrightarrow>
           (uint (knee a) \<le> uint (min_ticks a)
            \<or> uint (knee a) - uint (min_ticks a) < (bins a sdiv 2) mod 2 ^ 64
            \<or> linewid a < 54 \<or> 120 < linewid a)"
proof -
  have "args_check a \<noteq> 0 \<longleftrightarrow>
          ((knee a \<le> min_ticks a \<or> knee a - min_ticks a < of_int (bins a sdiv 2))
           \<or> ((of_int (linewid a) :: u64) < 54 \<or> (of_int (linewid a) :: u64) > 120))"
    by (simp add: args_check_def hdr_len bar_len)
  then show ?thesis using knee_checks [of "knee a" "min_ticks a" "bins a sdiv 2"] linewid_checks [OF assms]
    by simp
qed

lemma args_check_nonneg: "0 \<le> args_check a" by (simp add: args_check_def)

text \<open>
  C3 (as the code has it). The argument checks of \<^verbatim>\<open>main\<close> fail exactly when
  \<^verbatim>\<open>knee <= min\<close>, or \<^verbatim>\<open>knee - min\<close> is below \<^verbatim>\<open>bins/2\<close> converted to unsigned 64-bit
  (which is \<^verbatim>\<open>bins/2\<close> itself for a non-negative \<^verbatim>\<open>bins\<close>), or the line width is below
  header width plus one (54) or above header width plus bar width (120). The parity
  of \<^verbatim>\<open>bins\<close> plays no part. Whenever a check fails, \<^verbatim>\<open>main\<close> exits with the configuration
  error whatever the table block and the timestamp blocks would have been: neither the
  table is built nor a sample analysed.
\<close>

theorem args_check_fails_iff:
  assumes "c_int (linewid a)" and "c_int (bins a)"
  shows "(args_check a \<noteq> 0 \<longleftrightarrow>
            (uint (knee a) \<le> uint (min_ticks a)
             \<or> uint (knee a) - uint (min_ticks a) < (bins a sdiv 2) mod 2 ^ 64
             \<or> linewid a < 54 \<or> 120 < linewid a))
         \<and> (0 \<le> bins a \<longrightarrow> (bins a sdiv 2) mod 2 ^ 64 = bins a div 2)
         \<and> (args_check a \<noteq> 0 \<longrightarrow> main_core rc a m blocks = Inl ConfigError)"
proof (intro conjI impI)
  show "args_check a \<noteq> 0 \<longleftrightarrow>
          (uint (knee a) \<le> uint (min_ticks a)
           \<or> uint (knee a) - uint (min_ticks a) < (bins a sdiv 2) mod 2 ^ 64
           \<or> linewid a < 54 \<or> 120 < linewid a)"
    using assms(1) by (rule args_check_iff)
next
  assume b: "0 \<le> bins a"
  then have "bins a sdiv 2 = bins a div 2" by (rule sdiv2_nonneg)
  moreover have "bins a div 2 mod 2 ^ 64 = bins a div 2"
    using b assms(2) unfolding c_int_def by (intro mod_pos_pos_trivial) auto
  ultimately show "(bins a sdiv 2) mod 2 ^ 64 = bins a div 2" by simp
next
  assume "args_check a \<noteq> 0"
  then have "0 < args_check a" using args_check_nonneg [of a] by simp
  then have "(if rc then 1 else 0) + args_check a \<noteq> 0" by simp
  then show "main_core rc a m blocks = Inl ConfigError" by (simp add: main_core_def)
qed

theorem args_check_fails_iff_witness:
  "c_int 79 \<and> c_int 20
   \<and> args_check \<lparr>bins = 20, outfile = None, knee = 10, min_ticks = 10, outbuf_size = 10000,
                  pause = 0, runtime = 1, linewid = 79\<rparr> \<noteq> 0
   \<and> main_core False \<lparr>bins = 20, outfile = None, knee = 10, min_ticks = 10,
                       outbuf_size = 10000, pause = 0, runtime = 1, linewid = 79\<rparr>
        (replicate 20 \<lparr>ub = 0, count = 0\<rparr>) [[0, 20, 40, 60, 80, 100, 120, 140, 160, 180, 200]]
       = Inl ConfigError"
proof -
  let ?a = "\<lparr>bins = 20, outfile = None, knee = 10, min_ticks = 10, outbuf_size = 10000,
             pause = 0, runtime = 1, linewid = 79\<rparr>"
  have l: "c_int (linewid ?a)" and b: "c_int (bins ?a)" by (simp_all add: c_int_def)
  have k: "uint (knee ?a) \<le> uint (min_ticks ?a)" by simp
  from args_check_fails_iff [OF l b, of False] k l b show ?thesis by simp
qed

text \<open>
  An odd \<^verbatim>\<open>bins\<close> passes the checks: with \<^verbatim>\<open>-b 3\<close> and otherwise the default arguments
  \<^verbatim>\<open>main\<close> goes on to build a table of three bins and to sample.
\<close>

theorem odd_bins_not_rejected:
  "odd (bins \<lparr>bins = 3, outfile = None, knee = 50, min_ticks = 10, outbuf_size = 10000,
              pause = 0, runtime = 1, linewid = 79\<rparr>)
   \<and> args_check \<lparr>bins = 3, outfile = None, knee = 50, min_ticks = 10, outbuf_size = 10000,
                  pause = 0, runtime = 1, linewid = 79\<rparr> = 0
   \<and> main_core False \<lparr>bins = 3, outfile = None, knee = 50, min_ticks = 10,
                       outbuf_size = 10000, pause = 0, runtime = 1, linewid = 79\<rparr>
        [\<lparr>ub = 0, count = 0\<rparr>, \<lparr>ub = 0, count = 0\<rparr>, \<lparr>ub = 0, count = 0\<rparr>] []
       = Inr \<lparr>histo = [\<lparr>ub = 50, count = 0\<rparr>, \<lparr>ub = 100, count = 0\<rparr>,
                       \<lparr>ub = UINT64_MAX, count = 0\<rparr>],
              min_delta = UINT64_MAX, max_delta = 0, delta_count = 0, delta_sum = 0,
              outbuf = None, obp = 0, didwrap = 0\<rparr>"
  by (simp add: args_check_def main_core_def histo_setup_def fill_lower.simps fill_upper.simps
      put_bin_def put_sentinel_def lower_ub_def init_run_def signed_divide_int_def
      pre_graph_hdr_def graph_str_def)

section \<open>The outlier ring\<close>

lemma ring_rotate_step:
  assumes "p < length buf"
  shows "drop (Suc p mod length buf) (buf[p := r]) @ take (Suc p mod length buf) (buf[p := r])
         = tl (drop p buf @ take p buf) @ [r]"
proof (cases "Suc p = length buf")
  case True
  then have "drop (Suc p) buf = []" by simp
  then have "buf[p := r] = take p buf @ [r]" using assms by (simp add: upd_conv_take_nth_drop)
  moreover have "drop p buf = [buf ! p]"
    using assms True by (metis Cons_nth_drop_Suc \<open>drop (Suc p) buf = []\<close>)
  ultimately show ?thesis using True by simp
next
  case False
  then have lt: "Suc p < length buf" using assms by simp
  then have m: "Suc p mod length buf = Suc p" by simp
  have d: "drop (Suc p) (buf[p := r]) = drop (Suc p) buf" by simp
  have t: "take (Suc p) (buf[p := r]) = take p buf @ [r]"
    using assms by (simp add: take_Suc_conv_app_nth)
  have "drop p buf = buf ! p # drop (Suc p) buf" using assms by (simp add: Cons_nth_drop_Suc)
  then have "tl (drop p buf @ take p buf) = drop (Suc p) buf @ take p buf" by simp
  then show ?thesis using m d t by simp
qed

lemma drop_Suc_snoc:
  assumes "n < length xs"
  shows "drop (Suc n) (xs @ [r]) = tl (drop n xs) @ [r]"
proof -
  have "drop (Suc n) (xs @ [r]) = drop (Suc n) xs @ [r]" using assms by simp
  then show ?thesis by (simp add: drop_Suc tl_drop)
qed

lemma ring_inv_step:
  assumes "ring_inv cap os (buf, p, w)" and "0 < cap"
  shows "\<exists>st'. record_outlier cap t d (buf, p, w) = Inr st'
           \<and> ring_inv cap (os @ [\<lparr>when_tsc = t, delta = d\<rparr>]) st'"
proof -
  let ?c = "length buf" and ?n = "length os" and ?r = "\<lparr>when_tsc = t, delta = d\<rparr>"
  let ?z = "\<lparr>when_tsc = 0, delta = 0\<rparr>"
  from assms have c: "int ?c = cap" "0 < ?c" and p: "p = ?n mod ?c"
    and w: "w = (if ?c \<le> ?n then 1 else 0)"
    and L: "drop p buf @ take p buf = drop ?n (replicate ?c ?z @ os)"
    by (auto simp: ring_inv_def)
  have pl: "p < ?c" using p c(2) by simp
  let ?buf' = "buf[p := ?r]"
  let ?p' = "Suc p mod ?c"
  have wrap: "cap \<le> int (p + 1) \<longleftrightarrow> Suc p = ?c" using c(1) pl by auto
  have rec: "record_outlier cap t d (buf, p, w)
             = Inr (?buf', ?p', if Suc p = ?c then 1 else w)"
    using pl wrap by (auto simp: record_outlier_def Let_def)
  have p': "?p' = length (os @ [?r]) mod length ?buf'" using p by (simp add: mod_Suc)
  have w': "(if Suc p = ?c then 1 else w) = (if length ?buf' \<le> length (os @ [?r]) then 1 else (0::int))"
  proof (cases "Suc p = ?c")
    case True
    have "p \<le> ?n" using p c(2) by simp
    then show ?thesis using True by simp
  next
    case False
    show ?thesis
    proof (cases "?c \<le> ?n")
      case True
      then show ?thesis using False w by simp
    next
      case False
      then have "p = ?n" using p by simp
      then show ?thesis using \<open>Suc p \<noteq> ?c\<close> False w by simp
    qed
  qed
  have "?n < length (replicate ?c ?z @ os)" using c(2) by simp
  then have "drop (Suc ?n) ((replicate ?c ?z @ os) @ [?r]) = tl (drop ?n (replicate ?c ?z @ os)) @ [?r]"
    by (rule drop_Suc_snoc)
  then have L': "drop ?p' ?buf' @ take ?p' ?buf'
                 = drop (length (os @ [?r])) (replicate (length ?buf') ?z @ (os @ [?r]))"
    using ring_rotate_step [OF pl, of ?r] L by simp
  have "ring_inv cap (os @ [?r]) (?buf', ?p', if Suc p = ?c then 1 else w)"
    unfolding ring_inv_def using c(1) p' w' L' by simp
  then show ?thesis using rec by simp
qed


lemma map_ub_count_update: "map ub (h[k := (h ! k)\<lparr>count := c\<rparr>]) = map ub h"
proof (cases "k < length h")
  case True
  then have "(map ub h)[k := ub (h ! k)] = map ub h"
    by (metis list_update_id nth_map)
  then show ?thesis by (simp add: map_update)
next
  case False
  then have "length h \<le> k" by simp
  then have "h[k := (h ! k)\<lparr>count := c\<rparr>] = h" by (rule list_update_beyond)
  then show ?thesis by simp
qed

lemma last_ub_count_update:
  assumes "h \<noteq> []"
  shows "ub (last (h[k := (h ! k)\<lparr>count := c\<rparr>])) = ub (last h)"
proof -
  let ?h' = "h[k := (h ! k)\<lparr>count := c\<rparr>]"
  have "?h' \<noteq> []" using assms by simp
  then have "ub (last ?h') = last (map ub ?h')" by (simp add: last_map)
  also have "\<dots> = last (map ub h)" by (simp only: map_ub_count_update)
  also have "\<dots> = ub (last h)" using assms by (simp add: last_map)
  finally show ?thesis .
qed

lemma count_delta_Inr:
  assumes "h \<noteq> []" and "ub (last h) = UINT64_MAX"
  shows "\<exists>k. find_bin h d 0 = Inr k \<and> k < length h
             \<and> count_delta h d = Inr (h[k := (h ! k)\<lparr>count := int_wrap (count (h ! k) + 1)\<rparr>])"
proof -
  have "0 < length h" using assms(1) by simp
  from find_bin_from [OF this assms(2), of d]
  obtain k where "find_bin h d 0 = Inr k" "k < length h" by blast
  then show ?thesis by (auto simp: count_delta_def)
qed

lemma analyze_inv:
  assumes "run_inv a os s"
  shows "\<exists>s'. analyze a s (t, d) = Inr s'
           \<and> run_inv a (os @ (if knee a < d then [\<lparr>when_tsc = t, delta = d\<rparr>] else [])) s'
           \<and> (outbuf s' = None \<longleftrightarrow> outbuf s = None)"
proof -
  from assms have tbl: "histo s \<noteq> []" "ub (last (histo s)) = UINT64_MAX"
    by (simp_all add: run_inv_def)
  from count_delta_Inr [OF tbl, of d] obtain k where
    k: "count_delta (histo s) d
        = Inr ((histo s)[k := (histo s ! k)\<lparr>count := int_wrap (count (histo s ! k) + 1)\<rparr>])"
    by blast
  let ?h = "(histo s)[k := (histo s ! k)\<lparr>count := int_wrap (count (histo s ! k) + 1)\<rparr>]"
  have tbl': "?h \<noteq> []" "ub (last ?h) = UINT64_MAX"
    using tbl last_ub_count_update [OF tbl(1)] by simp_all
  show ?thesis
  proof (cases "outbuf s")
    case None
    then show ?thesis using k tbl' by (simp add: analyze_def run_inv_def Let_def)
  next
    case (Some buf)
    then have cap: "0 < outbuf_size a"
      and ri: "ring_inv (outbuf_size a) os (buf, obp s, didwrap s)"
      using assms by (simp_all add: run_inv_def)
    show ?thesis
    proof (cases "knee a < d")
      case False
      then show ?thesis using k tbl' Some cap ri by (simp add: analyze_def run_inv_def Let_def)
    next
      case True
      from ring_inv_step [OF ri cap, of t d] obtain buf' p' w' where
        r: "record_outlier (outbuf_size a) t d (buf, obp s, didwrap s) = Inr (buf', p', w')"
        and ri': "ring_inv (outbuf_size a) (os @ [\<lparr>when_tsc = t, delta = d\<rparr>]) (buf', p', w')"
        by (metis prod_cases3)
      then show ?thesis using k tbl' Some cap True
        by (simp add: analyze_def run_inv_def Let_def)
    qed
  qed
qed

lemma outliers_of_Cons:
  "outliers_of a ((t, d) # xs)
   = (if knee a < d then [\<lparr>when_tsc = t, delta = d\<rparr>] else []) @ outliers_of a xs"
  by (simp add: outliers_of_def)

lemma analyze_list_inv:
  assumes "run_inv a os s"
  shows "\<exists>s'. analyze_list a s xs = Inr s' \<and> run_inv a (os @ outliers_of a xs) s'
           \<and> (outbuf s' = None \<longleftrightarrow> outbuf s = None)"
  using assms
proof (induction xs arbitrary: s os)
  case Nil
  then show ?case by (simp add: outliers_of_def)
next
  case (Cons x xs)
  obtain t d where x: "x = (t, d)" by (cases x)
  let ?o = "if knee a < d then [\<lparr>when_tsc = t, delta = d\<rparr>] else []"
  from analyze_inv [OF Cons.prems, of t d] obtain s1 where
    s1: "analyze a s (t, d) = Inr s1" "run_inv a (os @ ?o) s1" "outbuf s1 = None \<longleftrightarrow> outbuf s = None"
    by auto
  from Cons.IH [OF s1(2)] obtain s' where
    s': "analyze_list a s1 xs = Inr s'" "run_inv a ((os @ ?o) @ outliers_of a xs) s'"
    "outbuf s' = None \<longleftrightarrow> outbuf s1 = None"
    by auto
  have "(os @ ?o) @ outliers_of a xs = os @ outliers_of a (x # xs)"
    unfolding x outliers_of_Cons by simp
  then show ?case using s1 s' x by simp
qed


lemma init_run_inv:
  assumes "h \<noteq> []" and "ub (last h) = UINT64_MAX" and "0 \<le> outbuf_size a"
  shows "run_inv a [] (init_run a h)"
proof (cases "outfile a \<noteq> None \<and> outbuf_size a \<noteq> 0")
  case False
  then show ?thesis using assms by (auto simp: run_inv_def init_run_def)
next
  case True
  then have "0 < outbuf_size a" using assms(3) by simp
  then have "ring_inv (outbuf_size a) [] (outliers_setup a, 0, 0)"
    by (simp add: ring_inv_def outliers_setup_def)
  then show ?thesis using True assms \<open>0 < outbuf_size a\<close> by (simp add: run_inv_def init_run_def)
qed

lemma replicate_5: "replicate 5 x = [x, x, x, x, x]"
  by (simp add: numeral_eq_Suc)

text \<open>
  C6. With capture enabled and capacity \<open>c\<close> = \<^verbatim>\<open>args.outbuf\<close>, a run whose samples hold
  \<open>c + k\<close> outliers, \<open>k > 0\<close>, ends with all \<open>c\<close> slots of the buffer written,
  \<^verbatim>\<open>didwrap\<close> set, the write position at \<open>k mod c\<close>, and the buffer, read from the
  write position round to the slot before it, equal to the last \<open>c\<close> outliers in the
  order of their capture.
\<close>

theorem ring_keeps_most_recent:
  assumes "h \<noteq> []" and "ub (last h) = UINT64_MAX"
    and "outfile a \<noteq> None" and "0 < outbuf_size a"
    and "length (outliers_of a xs) = nat (outbuf_size a) + k" and "0 < k"
  shows "\<exists>s buf. analyze_list a (init_run a h) xs = Inr s \<and> outbuf s = Some buf
           \<and> length buf = nat (outbuf_size a) \<and> didwrap s = 1
           \<and> obp s = k mod nat (outbuf_size a)
           \<and> drop (obp s) buf @ take (obp s) buf = drop k (outliers_of a xs)"
proof -
  have "run_inv a [] (init_run a h)" using assms(1,2,4) by (intro init_run_inv) simp_all
  from analyze_list_inv [OF this, of xs] obtain s where
    s: "analyze_list a (init_run a h) xs = Inr s" "run_inv a (outliers_of a xs) s"
    "outbuf s = None \<longleftrightarrow> outbuf (init_run a h) = None"
    by auto
  have "outbuf (init_run a h) \<noteq> None" using assms(3,4) by (simp add: init_run_def)
  then obtain buf where buf: "outbuf s = Some buf" using s(3) by auto
  let ?os = "outliers_of a xs" and ?c = "nat (outbuf_size a)"
  from s(2) buf have ri: "ring_inv (outbuf_size a) ?os (buf, obp s, didwrap s)"
    by (simp add: run_inv_def)
  then have len: "length buf = ?c" by (auto simp: ring_inv_def)
  from ri len have p: "obp s = length ?os mod ?c"
    and w: "didwrap s = (if ?c \<le> length ?os then 1 else 0)"
    and L: "drop (obp s) buf @ take (obp s) buf
            = drop (length ?os) (replicate ?c \<lparr>when_tsc = 0, delta = 0\<rparr> @ ?os)"
    by (auto simp: ring_inv_def)
  have "obp s = k mod ?c" using p assms(5) by simp
  moreover have "didwrap s = 1" using w assms(5) by simp
  moreover have "drop (obp s) buf @ take (obp s) buf = drop k ?os"
    using L assms(5) by simp
  ultimately show ?thesis using s(1) buf len by simp
qed

theorem ring_keeps_most_recent_witness:
  "[\<lparr>ub = 50, count = 0\<rparr>, \<lparr>ub = UINT64_MAX, count = 0\<rparr>] \<noteq> []
   \<and> ub (last [\<lparr>ub = 50, count = 0\<rparr>, \<lparr>ub = UINT64_MAX, count = 0\<rparr>]) = UINT64_MAX
   \<and> outfile (args\<lparr>outfile := Some ''out'', outbuf_size := 2\<rparr>) \<noteq> None
   \<and> 0 < outbuf_size (args\<lparr>outfile := Some ''out'', outbuf_size := 2\<rparr>)
   \<and> length (outliers_of (args\<lparr>outfile := Some ''out'', outbuf_size := 2\<rparr>)
               [(1, 100), (2, 20), (3, 300), (4, 400)])
       = nat (outbuf_size (args\<lparr>outfile := Some ''out'', outbuf_size := 2\<rparr>)) + 1
   \<and> (\<exists>s buf. analyze_list (args\<lparr>outfile := Some ''out'', outbuf_size := 2\<rparr>)
                 (init_run (args\<lparr>outfile := Some ''out'', outbuf_size := 2\<rparr>)
                    [\<lparr>ub = 50, count = 0\<rparr>, \<lparr>ub = UINT64_MAX, count = 0\<rparr>])
                 [(1, 100), (2, 20), (3, 300), (4, 400)] = Inr s
          \<and> outbuf s = Some buf \<and> length buf = 2 \<and> didwrap s = 1 \<and> obp s = 1
          \<and> drop (obp s) buf @ take (obp s) buf
              = [\<lparr>when_tsc = 3, delta = 300\<rparr>, \<lparr>when_tsc = 4, delta = 400\<rparr>])"
proof -
  let ?a = "args\<lparr>outfile := Some ''out'', outbuf_size := 2\<rparr>"
  let ?h = "[\<lparr>ub = 50, count = 0\<rparr>, \<lparr>ub = UINT64_MAX, count = 0\<rparr>]"
  let ?xs = "[(1, 100), (2, 20), (3, 300), (4, 400)] :: (u64 \<times> u64) list"
  have h1: "?h \<noteq> []" and h2: "ub (last ?h) = UINT64_MAX" by simp_all
  have a1: "outfile ?a \<noteq> None" and a2: "0 < outbuf_size ?a" by (simp_all add: args_def)
  have o: "outliers_of ?a ?xs
           = [\<lparr>when_tsc = 1, delta = 100\<rparr>, \<lparr>when_tsc = 3, delta = 300\<rparr>, \<lparr>when_tsc = 4, delta = 400\<rparr>]"
    by (simp add: outliers_of_def args_def)
  have c: "nat (outbuf_size ?a) = 2" by (simp add: args_def)
  have n: "length (outliers_of ?a ?xs) = nat (outbuf_size ?a) + 1" unfolding o c by simp
  have k: "(0::nat) < 1" by simp
  from ring_keeps_most_recent [OF h1 h2 a1 a2 n k] obtain s buf where
    r: "analyze_list ?a (init_run ?a ?h) ?xs = Inr s" "outbuf s = Some buf"
    "length buf = nat (outbuf_size ?a)" "didwrap s = 1" "obp s = 1 mod nat (outbuf_size ?a)"
    "drop (obp s) buf @ take (obp s) buf = drop 1 (outliers_of ?a ?xs)"
    by blast
  have "length buf = 2" using r(3) unfolding c .
  moreover have "obp s = 1" using r(5) unfolding c by simp
  moreover have "drop (obp s) buf @ take (obp s) buf
                 = [\<lparr>when_tsc = 3, delta = 300\<rparr>, \<lparr>when_tsc = 4, delta = 400\<rparr>]"
    using r(6) unfolding o by simp
  ultimately show ?thesis using h1 h2 a1 a2 n r(1,2,4) by blast
qed

text \<open>
  C7 (as the code has it). With capture enabled, \<^verbatim>\<open>didwrap\<close> is set exactly when at least
  \<^verbatim>\<open>args.outbuf\<close> outliers have been captured: the store that fills the last slot sets
  it, before any slot has been overwritten. One outlier in a buffer of capacity 5
  leaves it clear.
\<close>

theorem didwrap_iff_capacity_reached:
  assumes "h \<noteq> []" and "ub (last h) = UINT64_MAX"
    and "outfile a \<noteq> None" and "0 < outbuf_size a"
  shows "\<exists>s. analyze_list a (init_run a h) xs = Inr s
           \<and> (didwrap s \<noteq> 0 \<longleftrightarrow> nat (outbuf_size a) \<le> length (outliers_of a xs))"
proof -
  have "run_inv a [] (init_run a h)" using assms(1,2,4) by (intro init_run_inv) simp_all
  from analyze_list_inv [OF this, of xs] obtain s where
    s: "analyze_list a (init_run a h) xs = Inr s" "run_inv a (outliers_of a xs) s"
    "outbuf s = None \<longleftrightarrow> outbuf (init_run a h) = None"
    by auto
  have "outbuf (init_run a h) \<noteq> None" using assms(3,4) by (simp add: init_run_def)
  then obtain buf where buf: "outbuf s = Some buf" using s(3) by auto
  from s(2) buf have ri: "ring_inv (outbuf_size a) (outliers_of a xs) (buf, obp s, didwrap s)"
    by (simp add: run_inv_def)
  then have "length buf = nat (outbuf_size a)" by (auto simp: ring_inv_def)
  with ri have "didwrap s = (if nat (outbuf_size a) \<le> length (outliers_of a xs) then 1 else 0)"
    by (auto simp: ring_inv_def)
  then show ?thesis using s(1) by simp
qed

theorem didwrap_iff_capacity_reached_witness:
  "[\<lparr>ub = 50, count = 0\<rparr>, \<lparr>ub = UINT64_MAX, count = 0\<rparr>] \<noteq> []
   \<and> ub (last [\<lparr>ub = 50, count = 0\<rparr>, \<lparr>ub = UINT64_MAX, count = 0\<rparr>]) = UINT64_MAX
   \<and> outfile (args\<lparr>outfile := Some ''out'', outbuf_size := 5\<rparr>) \<noteq> None
   \<and> 0 < outbuf_size (args\<lparr>outfile := Some ''out'', outbuf_size := 5\<rparr>)
   \<and> (\<exists>s. analyze_list (args\<lparr>outfile := Some ''out'', outbuf_size := 5\<rparr>)
             (init_run (args\<lparr>outfile := Some ''out'', outbuf_size := 5\<rparr>)
                [\<lparr>ub = 50, count = 0\<rparr>, \<lparr>ub = UINT64_MAX, count = 0\<rparr>])
             [(7, 1000000)] = Inr s
          \<and> didwrap s = 0)"
proof -
  let ?a = "args\<lparr>outfile := Some ''out'', outbuf_size := 5\<rparr>"
  let ?h = "[\<lparr>ub = 50, count = 0\<rparr>, \<lparr>ub = UINT64_MAX, count = 0\<rparr>]"
  have h1: "?h \<noteq> []" and h2: "ub (last ?h) = UINT64_MAX" by simp_all
  have a1: "outfile ?a \<noteq> None" and a2: "0 < outbuf_size ?a" by (simp_all add: args_def)
  have o: "length (outliers_of ?a [(7, 1000000)]) = 1" by (simp add: outliers_of_def args_def)
  have c: "nat (outbuf_size ?a) = 5" by (simp add: args_def)
  from didwrap_iff_capacity_reached [OF h1 h2 a1 a2, of "[(7, 1000000)]"] obtain s where
    r: "analyze_list ?a (init_run ?a ?h) [(7, 1000000)] = Inr s"
    "didwrap s \<noteq> 0 \<longleftrightarrow> nat (outbuf_size ?a) \<le> length (outliers_of ?a [(7, 1000000)])"
    by blast
  have "didwrap s = 0" using r(2) unfolding c o by simp
  then show ?thesis using h1 h2 a1 a2 r(1) by blast
qed

text \<open>
  Five outliers in a buffer of capacity 5: every slot holds its own outlier, none has
  been overwritten, and \<^verbatim>\<open>didwrap\<close> is 1.
\<close>

theorem didwrap_set_without_overwrite:
  "analyze_list (args\<lparr>outfile := Some ''out'', outbuf_size := 5\<rparr>)
     (init_run (args\<lparr>outfile := Some ''out'', outbuf_size := 5\<rparr>)
        [\<lparr>ub = 50, count = 0\<rparr>, \<lparr>ub = UINT64_MAX, count = 0\<rparr>])
     [(1, 100), (2, 200), (3, 300), (4, 400), (5, 500)]
   = Inr \<lparr>histo = [\<lparr>ub = 50, count = 0\<rparr>, \<lparr>ub = UINT64_MAX, count = 5\<rparr>],
          min_delta = 100, max_delta = 500, delta_count = 5, delta_sum = 1500,
          outbuf = Some [\<lparr>when_tsc = 1, delta = 100\<rparr>, \<lparr>when_tsc = 2, delta = 200\<rparr>,
                         \<lparr>when_tsc = 3, delta = 300\<rparr>, \<lparr>when_tsc = 4, delta = 400\<rparr>,
                         \<lparr>when_tsc = 5, delta = 500\<rparr>],
          obp = 0, didwrap = 1\<rparr>"
  by (simp add: args_def init_run_def outliers_setup_def analyze_def count_delta_def
      find_bin.simps record_outlier_def int_wrap_def UINT64_MAX_def Let_def replicate_5)

section \<open>Counting the deltas\<close>


















section \<open>The knee recommendations\<close>







section \<open>The export of the outliers\<close>

lemma export_outliers_filter: "export_outliers buf = filter (\<lambda>x. when_tsc x \<noteq> 0) buf"
  by (induction buf) simp_all

text \<open>
  C10. The export loop prints exactly the slots whose \<^verbatim>\<open>when\<close> is nonzero, in the order
  of the buffer. The slots \<^verbatim>\<open>calloc\<close> zeroed and nothing wrote are skipped; so is a
  captured outlier whose block had \<^verbatim>\<open>t5\<close> = 0: it is stored, and never printed.
\<close>

theorem export_skips_zero_when:
  "export_outliers buf = filter (\<lambda>x. when_tsc x \<noteq> 0) buf
   \<and> (\<forall>i < length buf. buf ! i \<in> set (export_outliers buf) \<longleftrightarrow> when_tsc (buf ! i) \<noteq> 0)
   \<and> export_outliers (outliers_setup a) = []
   \<and> (p < length buf \<longrightarrow>
        (\<exists>buf' p' w'. record_outlier cap 0 d (buf, p, w) = Inr (buf', p', w')
           \<and> buf' ! p = \<lparr>when_tsc = 0, delta = d\<rparr>
           \<and> \<lparr>when_tsc = 0, delta = d\<rparr> \<notin> set (export_outliers buf')))"
proof (intro conjI allI impI)
  show "export_outliers buf = filter (\<lambda>x. when_tsc x \<noteq> 0) buf" by (rule export_outliers_filter)
next
  fix i assume "i < length buf"
  then show "buf ! i \<in> set (export_outliers buf) \<longleftrightarrow> when_tsc (buf ! i) \<noteq> 0"
    by (simp add: export_outliers_filter)
next
  show "export_outliers (outliers_setup a) = []"
    by (simp add: export_outliers_filter outliers_setup_def)
next
  assume p: "p < length buf"
  let ?buf' = "buf[p := \<lparr>when_tsc = 0, delta = d\<rparr>]"
  have "\<exists>p' w'. record_outlier cap 0 d (buf, p, w) = Inr (?buf', p', w')"
    using p by (simp add: record_outlier_def Let_def)
  moreover have "?buf' ! p = \<lparr>when_tsc = 0, delta = d\<rparr>" using p by simp
  moreover have "\<lparr>when_tsc = 0, delta = d\<rparr> \<notin> set (export_outliers ?buf')"
    by (simp add: export_outliers_filter)
  ultimately show "\<exists>buf' p' w'. record_outlier cap 0 d (buf, p, w) = Inr (buf', p', w')
           \<and> buf' ! p = \<lparr>when_tsc = 0, delta = d\<rparr>
           \<and> \<lparr>when_tsc = 0, delta = d\<rparr> \<notin> set (export_outliers buf')"
    by blast
qed

theorem export_skips_zero_when_witness:
  "(0::nat) < length [\<lparr>when_tsc = 0, delta = 0\<rparr>, \<lparr>when_tsc = 9, delta = 70\<rparr>]
   \<and> export_outliers [\<lparr>when_tsc = 0, delta = 0\<rparr>, \<lparr>when_tsc = 9, delta = 70\<rparr>]
       = [\<lparr>when_tsc = 9, delta = 70\<rparr>]
   \<and> (\<exists>buf' p' w'. record_outlier 2 0 60 ([\<lparr>when_tsc = 0, delta = 0\<rparr>, \<lparr>when_tsc = 9, delta = 70\<rparr>], 0, 0)
                     = Inr (buf', p', w')
          \<and> buf' ! 0 = \<lparr>when_tsc = 0, delta = 60\<rparr>
          \<and> \<lparr>when_tsc = 0, delta = 60\<rparr> \<notin> set (export_outliers buf'))"
proof -
  let ?buf = "[\<lparr>when_tsc = 0, delta = 0\<rparr>, \<lparr>when_tsc = 9, delta = 70\<rparr>]"
  have l: "(0::nat) < length ?buf" by simp
  from export_skips_zero_when [of ?buf args 0 2 60 0] l show ?thesis by simp
qed

section \<open>The bars of the histogram\<close>

lemma M_E_pos: "0 < M_E" by (simp add: M_E_def)

lemma log_arg_neg_iff: "log_arg c < 0 \<longleftrightarrow> c \<le> 2"
proof
  assume "log_arg c < 0"
  then have "real_of_int c < 3" by (simp add: log_arg_def M_E_def)
  then have "c < 3" by linarith
  then show "c \<le> 2" by simp
next
  assume "c \<le> 2"
  then have "real_of_int c \<le> 2" by linarith
  then show "log_arg c < 0" by (simp add: log_arg_def M_E_def)
qed

lemma max_count_empty_bins:
  assumes "\<forall>b \<in> set h. count b = 0"
  shows "max_count h = 0"
proof -
  have "fold (\<lambda>b m. if of_int (count b) > m then of_int (count b) else m) h (0::u64) = 0"
    using assms by (induction h) simp_all
  then show ?thesis by (simp add: max_count_def)
qed

lemma countlog_small:
  assumes "c \<le> 2"
  shows "countlog f c = (if c = 0 then 0 else 1)"
proof -
  have "log_arg c < 0" using assms by (simp add: log_arg_neg_iff)
  then have "conv_x86 f (log_arg c) = INT_MIN" by (simp add: conv_x86_def)
  then show ?thesis by (simp add: countlog_def INT_MIN_def Let_def)
qed

text \<open>
  C8 (as the code has it). A bin with count 0 is rendered with the bar 0, also in a
  histogram whose bins are all empty, and a bin with a nonzero count with a bar of at
  least 1 (exactly 1 for the counts 1 and 2). \<^verbatim>\<open>log\<close> is called for every bin
  all the same: its argument is negative exactly for the counts up to 2, and in a
  histogram of empty bins every call, the one in \<^verbatim>\<open>graph_scale\<close> included, has a negative
  argument. The bar 0 of an empty bin is the clamp of the converted NaN.
\<close>

theorem countlog_bar:
  "countlog f 0 = 0
   \<and> (c \<noteq> 0 \<longrightarrow> 1 \<le> countlog f c)
   \<and> (c \<le> 2 \<longrightarrow> countlog f c = (if c = 0 then 0 else 1))
   \<and> ((\<forall>b \<in> set h. count b = 0) \<longrightarrow> bar_lengths f h = replicate (length h) 0)
   \<and> (log_arg c < 0 \<longleftrightarrow> c \<le> 2)
   \<and> ((\<forall>b \<in> set h. count b = 0) \<longrightarrow> (\<forall>x \<in> set (log_calls h). x < 0))"
proof (intro conjI impI)
  show z: "countlog f 0 = 0" using countlog_small [of 0 f] by simp
  show "log_arg c < 0 \<longleftrightarrow> c \<le> 2" by (rule log_arg_neg_iff)
  show "1 \<le> countlog f c" if "c \<noteq> 0"
    using that by (simp add: countlog_def Let_def)
  show "countlog f c = (if c = 0 then 0 else 1)" if "c \<le> 2"
    using that by (rule countlog_small)
  show "bar_lengths f h = replicate (length h) 0" if "\<forall>b \<in> set h. count b = 0"
  proof -
    have "map (\<lambda>b. countlog f (count b)) h = map (\<lambda>b. 0) h"
      using that z by (intro map_cong) simp_all
    then show ?thesis by (simp add: bar_lengths_def map_replicate_const)
  qed
  show "\<forall>x \<in> set (log_calls h). x < 0" if e: "\<forall>b \<in> set h. count b = 0"
  proof -
    have "max_count h = 0" using e by (rule max_count_empty_bins)
    then have "scale_log_arg h < 0" using M_E_pos by (simp add: scale_log_arg_def)
    moreover have "\<forall>b \<in> set h. log_arg (count b) < 0" using e by (simp add: log_arg_neg_iff)
    ultimately show ?thesis by (auto simp: log_calls_def)
  qed
qed

theorem countlog_bar_witness:
  "countlog (\<lambda>x. 67) 0 = 0
   \<and> (3::int) \<noteq> 0 \<and> 1 \<le> countlog (\<lambda>x. 0) 3
   \<and> (1::int) \<le> 2 \<and> countlog (\<lambda>x. 67) 1 = 1
   \<and> list_all (\<lambda>b. count b = 0) [\<lparr>ub = 50, count = 0\<rparr>, \<lparr>ub = UINT64_MAX, count = 0\<rparr>]
   \<and> bar_lengths (\<lambda>x. 67) [\<lparr>ub = 50, count = 0\<rparr>, \<lparr>ub = UINT64_MAX, count = 0\<rparr>] = [0, 0]
   \<and> list_all (\<lambda>x. x < 0) (log_calls [\<lparr>ub = 50, count = 0\<rparr>, \<lparr>ub = UINT64_MAX, count = 0\<rparr>])"
  using countlog_bar [of "\<lambda>x. 0" 3 "[\<lparr>ub = 50, count = 0\<rparr>, \<lparr>ub = UINT64_MAX, count = 0\<rparr>]"]
    countlog_bar [of "\<lambda>x. 67" 1 "[\<lparr>ub = 50, count = 0\<rparr>, \<lparr>ub = UINT64_MAX, count = 0\<rparr>]"]
  by (simp add: list_all_iff numeral_2_eq_2)

text \<open>
  The calls of \<^verbatim>\<open>log\<close> for a table of two empty bins: three calls, each on \<open>- M_E\<close>.
\<close>

theorem log_of_negative_is_evaluated:
  "log_calls [\<lparr>ub = 50, count = 0\<rparr>, \<lparr>ub = UINT64_MAX, count = 0\<rparr>] = [- M_E, - M_E, - M_E]
   \<and> - M_E < 0"
  by (simp add: log_calls_def log_arg_def M_E_def scale_log_arg_def max_count_def)

end
